theory Spec2Isabelle
  imports Complex_Main "HOL-Library.Char_ord" "HOL-Library.List_Lexorder"
begin

section \<open>Storage engine (storage.py)\<close>

text \<open>
  One row of the table \<^verbatim>\<open>clips\<close>. The columns keep their names; \<^verbatim>\<open>id\<close> and
  \<^verbatim>\<open>type\<close> are written \<open>clip_id\<close> and \<open>clip_type\<close>. Text columns are strings,
  timestamps are the ISO strings the code stores, \<^verbatim>\<open>is_pinned\<close> (0 or 1 in the
  table) is a boolean.
\<close>

record clip =
  clip_id :: int
  clip_type :: string
  content :: string
  hash :: string
  tag :: string
  group_name :: string
  is_pinned :: bool
  pin_order :: int
  created_at :: string
  updated_at :: string

text \<open>
  The state of a \<^verbatim>\<open>ClipboardStorage\<close>: the table in rowid order, the
  AUTOINCREMENT high-water mark that SQLite keeps in \<^verbatim>\<open>sqlite_sequence\<close>, the
  class attribute \<^verbatim>\<open>_need_backup\<close>, whether \<^verbatim>\<open>_backup_callback\<close> is set, and how
  often that callback has been invoked so far.
\<close>

record storage =
  rows :: "clip list"
  seq :: int
  need_backup :: bool
  backup_callback :: bool
  callback_calls :: nat

text \<open>
  The exceptions that leave a function of the model: the constraint violation of an
  INSERT, the decoding error of a file that is not UTF-8, and the attribute error of
  \<^verbatim>\<open>.get\<close> on a value that is not a dictionary.
\<close>

datatype error = IntegrityError | UnicodeDecodeError | AttributeError

text \<open>
  What \<^verbatim>\<open>open(path, "r", encoding="utf-8")\<close> followed by \<^verbatim>\<open>json.load\<close> gives: the
  file cannot be opened (\<^verbatim>\<open>OSError\<close>), its bytes are not UTF-8
  (\<^verbatim>\<open>UnicodeDecodeError\<close>), its text is not JSON (\<^verbatim>\<open>JSONDecodeError\<close>), or the parsed
  document.
\<close>

datatype 'a file_read = ReadOSError | ReadUnicodeError | ReadJSONError | Parsed 'a

text \<open>
  These are the outcomes the model tells apart; a parse that exhausts the memory or the
  recursion depth of the interpreter is left out.
\<close>

definition empty_storage :: storage where
  "empty_storage =
     \<lparr>rows = [], seq = 0, need_backup = False, backup_callback = False, callback_calls = 0\<rparr>"

text \<open>
  \<^verbatim>\<open>compute_hash\<close>: the MD5 hex digest of the UTF-8 encoding of the content. The
  digest is a library function; it is the parameter \<open>md5\<close> of every operation that
  hashes.
\<close>

definition compute_hash :: "(string \<Rightarrow> string) \<Rightarrow> string \<Rightarrow> string" where
  "compute_hash md5 c = md5 c"

definition set_backup_callback :: "storage \<Rightarrow> storage" where
  "set_backup_callback s = s\<lparr>backup_callback := True\<rparr>"

definition mark_dirty :: "storage \<Rightarrow> storage" where
  "mark_dirty s =
     (let s1 = s\<lparr>need_backup := True\<rparr>
      in if backup_callback s1 then s1\<lparr>callback_calls := callback_calls s1 + 1\<rparr> else s1)"

definition clear_backup_flag :: "storage \<Rightarrow> storage" where
  "clear_backup_flag s = s\<lparr>need_backup := False\<rparr>"

subsection \<open>The SQL statements the operations issue\<close>

text \<open>\<^verbatim>\<open>UPDATE clips SET ... WHERE id = ?\<close>\<close>

definition update_by_id :: "int \<Rightarrow> (clip \<Rightarrow> clip) \<Rightarrow> clip list \<Rightarrow> clip list" where
  "update_by_id i f rs = map (\<lambda>r. if clip_id r = i then f r else r) rs"

text \<open>\<^verbatim>\<open>DELETE FROM clips WHERE ...\<close>\<close>

definition delete_where :: "(clip \<Rightarrow> bool) \<Rightarrow> clip list \<Rightarrow> clip list" where
  "delete_where P rs = filter (\<lambda>r. \<not> P r) rs"

text \<open>
  The rowid of the next inserted row under \<^verbatim>\<open>INTEGER PRIMARY KEY AUTOINCREMENT\<close>: one
  more than the largest rowid the table holds or has ever held.
\<close>

definition next_rowid :: "storage \<Rightarrow> int" where
  "next_rowid s = fold max (map clip_id (rows s)) (seq s) + 1"

text \<open>\<^verbatim>\<open>CHECK(type IN ('text', 'image'))\<close>\<close>

definition type_check :: "string \<Rightarrow> bool" where
  "type_check t = (t = ''text'' \<or> t = ''image'')"

text \<open>\<^verbatim>\<open>SELECT COALESCE(MAX(pin_order), 0) FROM clips WHERE is_pinned = 1\<close>\<close>

definition max_pin_order :: "clip list \<Rightarrow> int" where
  "max_pin_order rs =
     (case map pin_order (filter is_pinned rs) of
        [] \<Rightarrow> 0
      | x # xs \<Rightarrow> fold max xs x)"

subsection \<open>Write operations\<close>

definition add_clip ::
  "(string \<Rightarrow> string) \<Rightarrow> string \<Rightarrow> string \<Rightarrow> string \<Rightarrow> string \<Rightarrow> storage
     \<Rightarrow> error + (storage \<times> int \<times> bool)" where
  "add_clip md5 ctype c tg now s =
     (let content_hash = compute_hash md5 c
      in case find (\<lambda>r. hash r = content_hash) (rows s) of
           Some existing \<Rightarrow>
             Inr (mark_dirty
                    (s\<lparr>rows := update_by_id (clip_id existing) (\<lambda>r. r\<lparr>updated_at := now\<rparr>) (rows s)\<rparr>),
                  clip_id existing, False)
         | None \<Rightarrow>
             if \<not> type_check ctype then Inl IntegrityError
             else
               let lastrowid = next_rowid s;
                   s1 = s\<lparr>rows := rows s @
                          [\<lparr>clip_id = lastrowid, clip_type = ctype, content = c,
                            hash = content_hash, tag = tg, group_name = [],
                            is_pinned = False, pin_order = 0,
                            created_at = now, updated_at = now\<rparr>],
                        seq := lastrowid\<rparr>;
                   s2 = mark_dirty s1;
                   new_id = (if lastrowid \<noteq> 0 then lastrowid else 0)
               in Inr (s2, new_id, True))"

definition pin_clip :: "string \<Rightarrow> int \<Rightarrow> storage \<Rightarrow> storage \<times> bool" where
  "pin_clip now i s =
     (let max_order = max_pin_order (rows s)
      in (mark_dirty
            (s\<lparr>rows := update_by_id i
                 (\<lambda>r. r\<lparr>is_pinned := True, pin_order := max_order + 1, updated_at := now\<rparr>)
                 (rows s)\<rparr>),
          True))"

definition unpin_clip :: "string \<Rightarrow> int \<Rightarrow> storage \<Rightarrow> storage \<times> bool" where
  "unpin_clip now i s =
     (mark_dirty
        (s\<lparr>rows := update_by_id i
             (\<lambda>r. r\<lparr>is_pinned := False, pin_order := 0, updated_at := now\<rparr>) (rows s)\<rparr>),
      True)"

definition delete_clip :: "int \<Rightarrow> storage \<Rightarrow> storage \<times> bool" where
  "delete_clip i s =
     (mark_dirty (s\<lparr>rows := delete_where (\<lambda>r. clip_id r = i) (rows s)\<rparr>), True)"

definition update_tag :: "int \<Rightarrow> string \<Rightarrow> storage \<Rightarrow> storage \<times> bool" where
  "update_tag i tg s =
     (mark_dirty (s\<lparr>rows := update_by_id i (\<lambda>r. r\<lparr>tag := tg\<rparr>) (rows s)\<rparr>), True)"

definition update_group :: "int \<Rightarrow> string \<Rightarrow> storage \<Rightarrow> storage \<times> bool" where
  "update_group i g s =
     (mark_dirty (s\<lparr>rows := update_by_id i (\<lambda>r. r\<lparr>group_name := g\<rparr>) (rows s)\<rparr>), True)"

definition clear_history :: "storage \<Rightarrow> storage \<times> nat" where
  "clear_history s =
     (mark_dirty (s\<lparr>rows := delete_where (\<lambda>r. \<not> is_pinned r) (rows s)\<rparr>),
      length (filter (\<lambda>r. \<not> is_pinned r) (rows s)))"

definition clear_pinned :: "storage \<Rightarrow> storage \<times> nat" where
  "clear_pinned s =
     (mark_dirty (s\<lparr>rows := delete_where is_pinned (rows s)\<rparr>),
      length (filter is_pinned (rows s)))"

text \<open>
  The history view \<^verbatim>\<open>SELECT id FROM clips WHERE is_pinned = 0 ORDER BY updated_at DESC\<close>.
  Timestamps are compared as text. SQL leaves the order of rows with equal
  \<^verbatim>\<open>updated_at\<close> open; here they stay in rowid order.
\<close>

definition history_order :: "clip list \<Rightarrow> clip list" where
  "history_order rs = rev (sort_key updated_at (rev (filter (\<lambda>r. \<not> is_pinned r) rs)))"

text \<open>\<^verbatim>\<open>clip_ids.index(clip_id)\<close>, for an element of the list.\<close>

fun index_of :: "int \<Rightarrow> int list \<Rightarrow> nat" where
  "index_of x [] = 0"
| "index_of x (y # ys) = (if x = y then 0 else Suc (index_of x ys))"

text \<open>
  The loop of \<^verbatim>\<open>move_clip\<close> that rewrites the timestamps of the history:
  \<open>stamp i\<close> is the text of \<^verbatim>\<open>datetime.fromtimestamp(base_time.timestamp() - i * 0.001).isoformat()\<close>,
  a value of the clock and of floating-point arithmetic, hence a parameter.
\<close>

fun rewrite_times :: "(nat \<Rightarrow> string) \<Rightarrow> nat \<Rightarrow> int list \<Rightarrow> clip list \<Rightarrow> clip list" where
  "rewrite_times stamp i [] rs = rs"
| "rewrite_times stamp i (cid # cids) rs =
     rewrite_times stamp (Suc i) cids (update_by_id cid (\<lambda>r. r\<lparr>updated_at := stamp i\<rparr>) rs)"

definition move_clip :: "(nat \<Rightarrow> string) \<Rightarrow> int \<Rightarrow> int \<Rightarrow> bool \<Rightarrow> storage \<Rightarrow> storage \<times> bool" where
  "move_clip stamp i direction pinned s =
     (if pinned then
        (case find (\<lambda>r. clip_id r = i) (rows s) of
           None \<Rightarrow> (s, False)
         | Some current \<Rightarrow>
             let current_order = pin_order current;
                 new_order = current_order + direction
             in (case find (\<lambda>r. is_pinned r \<and> pin_order r = new_order) (rows s) of
                   Some target \<Rightarrow>
                     let rs1 = update_by_id i (\<lambda>r. r\<lparr>pin_order := new_order\<rparr>) (rows s);
                         target_id = clip_id target;
                         rs2 = update_by_id target_id (\<lambda>r. r\<lparr>pin_order := current_order\<rparr>) rs1;
                         rs3 = update_by_id (clip_id target) (\<lambda>r. r\<lparr>pin_order := current_order\<rparr>) rs2
                     in (mark_dirty (s\<lparr>rows := rs3\<rparr>), True)
                 | None \<Rightarrow> (mark_dirty s, True)))
      else
        (let clip_ids = map clip_id (history_order (rows s))
         in if i \<notin> set clip_ids then (s, False)
            else
              let idx = index_of i clip_ids;
                  new_idx = int idx + direction
              in if 0 \<le> new_idx \<and> new_idx < int (length clip_ids) then
                   let swapped = clip_ids[idx := clip_ids ! nat new_idx, nat new_idx := clip_ids ! idx]
                   in (mark_dirty (s\<lparr>rows := rewrite_times stamp 0 swapped (rows s)\<rparr>), True)
                 else (mark_dirty s, True)))"

subsection \<open>Bulk import\<close>

text \<open>
  A clip as a dictionary, as \<^verbatim>\<open>import_clips\<close> receives it: each key may be absent.
  Values that are present have the type of their column.
\<close>

record clip_dict =
  d_type :: "string option"
  d_content :: "string option"
  d_tag :: "string option"
  d_is_pinned :: "bool option"
  d_pin_order :: "int option"
  d_hash :: "string option"
  d_group_name :: "string option"
  d_created_at :: "string option"
  d_updated_at :: "string option"

text \<open>\<^verbatim>\<open>clip.get(key, default)\<close>\<close>

definition dict_get :: "'a option \<Rightarrow> 'a \<Rightarrow> 'a" where
  "dict_get v dflt = (case v of Some x \<Rightarrow> x | None \<Rightarrow> dflt)"

text \<open>
  \<^verbatim>\<open>INSERT OR IGNORE INTO clips (type, content, hash, tag, is_pinned, created_at, updated_at)\<close>:
  a row that violates the CHECK on \<^verbatim>\<open>type\<close> or the UNIQUE constraint on \<^verbatim>\<open>hash\<close> is
  skipped without an error; the columns the statement does not name
  (\<^verbatim>\<open>group_name\<close>, \<^verbatim>\<open>pin_order\<close>) take their defaults. SQLite takes the next rowid
  before it checks the constraints, so the AUTOINCREMENT counter advances for a skipped
  row as well.
\<close>

definition insert_or_ignore ::
  "string \<Rightarrow> string \<Rightarrow> string \<Rightarrow> string \<Rightarrow> bool \<Rightarrow> string \<Rightarrow> string \<Rightarrow> storage \<Rightarrow> storage" where
  "insert_or_ignore ctype c h tg pinned cr up s =
     (if \<not> type_check ctype \<or> h \<in> set (map hash (rows s)) then s\<lparr>seq := next_rowid s\<rparr>
      else s\<lparr>rows := rows s @
               [\<lparr>clip_id = next_rowid s, clip_type = ctype, content = c, hash = h, tag = tg,
                 group_name = [], is_pinned = pinned, pin_order = 0,
                 created_at = cr, updated_at = up\<rparr>],
             seq := next_rowid s\<rparr>)"

text \<open>
  The body of the loop of \<^verbatim>\<open>import_clips\<close>. \<open>now\<close> is the clock read for this record.
  The statement never raises \<^verbatim>\<open>IntegrityError\<close>, so the counter is incremented for
  every record.
\<close>

definition import_one :: "(string \<Rightarrow> string) \<Rightarrow> string \<Rightarrow> clip_dict \<Rightarrow> storage \<times> nat \<Rightarrow> storage \<times> nat" where
  "import_one md5 now clip acc =
     (let c = dict_get (d_content clip) [];
          ctype = dict_get (d_type clip) ''text'';
          tg = dict_get (d_tag clip) [];
          pinned = dict_get (d_is_pinned clip) False;
          content_hash = (case d_hash clip of
                            Some h \<Rightarrow> if h \<noteq> [] then h else compute_hash md5 c
                          | None \<Rightarrow> compute_hash md5 c);
          cr = dict_get (d_created_at clip) now;
          up = dict_get (d_updated_at clip) cr
      in (insert_or_ignore ctype c content_hash tg pinned cr up (fst acc), snd acc + 1))"

fun import_loop ::
  "(string \<Rightarrow> string) \<Rightarrow> (nat \<Rightarrow> string) \<Rightarrow> nat \<Rightarrow> clip_dict list \<Rightarrow> storage \<times> nat \<Rightarrow> storage \<times> nat" where
  "import_loop md5 now_at i [] acc = acc"
| "import_loop md5 now_at i (clip # clips) acc =
     import_loop md5 now_at (Suc i) clips (import_one md5 (now_at i) clip acc)"

text \<open>
  \<^verbatim>\<open>import_clips\<close>: \<open>now_at i\<close> is the clock read while record \<open>i\<close> is processed.
  The function does not call \<^verbatim>\<open>_mark_dirty\<close>.
\<close>

definition import_clips ::
  "(string \<Rightarrow> string) \<Rightarrow> (nat \<Rightarrow> string) \<Rightarrow> clip_dict list \<Rightarrow> storage \<Rightarrow> storage \<times> nat" where
  "import_clips md5 now_at clips s = import_loop md5 now_at 0 clips (s, 0)"

definition get_clip_count :: "storage \<Rightarrow> nat" where
  "get_clip_count s = length (rows s)"

text \<open>\<^verbatim>\<open>is_db_valid\<close>: the table of the model can always be read.\<close>

definition is_db_valid :: "storage \<Rightarrow> bool" where
  "is_db_valid s = True"

subsection \<open>Predicates of the properties\<close>

text \<open>\<^verbatim>\<open>pin_order\<close> is unique among the rows that are pinned.\<close>

definition pin_order_unique :: "clip list \<Rightarrow> bool" where
  "pin_order_unique rs = distinct (map pin_order (filter is_pinned rs))"

text \<open>
  What one call of \<^verbatim>\<open>_mark_dirty\<close> does to the flag and to the callback: the flag is
  set, and the callback, if one is registered, has been invoked once more.
\<close>

definition dirty_once :: "storage \<Rightarrow> storage \<Rightarrow> bool" where
  "dirty_once s s' =
     (need_backup s' \<and> backup_callback s' = backup_callback s \<and>
      callback_calls s' = (if backup_callback s then callback_calls s + 1 else callback_calls s))"

text \<open>
  The two constraints together: ids are unique (PRIMARY KEY) and pin orders are unique
  among the pinned rows. \<open>row_key\<close> is what they depend on.
\<close>

definition table_ok :: "clip list \<Rightarrow> bool" where
  "table_ok rs = (distinct (map clip_id rs) \<and> pin_order_unique rs)"

definition row_key :: "clip \<Rightarrow> int \<times> bool \<times> int" where
  "row_key r = (clip_id r, is_pinned r, pin_order r)"

subsection \<open>The pinned move on one row\<close>

text \<open>
  The effect of the three UPDATE statements of a pinned move on one row: the row with
  id \<open>j\<close> gets order \<open>b\<close>, otherwise the row with id \<open>i\<close> gets order \<open>a\<close>.
\<close>

definition swap_row :: "int \<Rightarrow> int \<Rightarrow> int \<Rightarrow> int \<Rightarrow> clip \<Rightarrow> clip" where
  "swap_row i a j b r =
     (if clip_id r = j then r\<lparr>pin_order := b\<rparr>
      else if clip_id r = i then r\<lparr>pin_order := a\<rparr> else r)"

section \<open>Legacy import and recovery (backup_manager.py, main.py)\<close>

text \<open>
  An entry of the legacy file \<^verbatim>\<open>data.json\<close>: a plain string, or an object whose keys
  \<^verbatim>\<open>type\<close>, \<^verbatim>\<open>content\<close> and \<^verbatim>\<open>tag\<close> may each be absent. The file's object has
  the keys \<^verbatim>\<open>pinned\<close> and \<^verbatim>\<open>history\<close>, each absent or a list of such entries, as
  the legacy application wrote them.
\<close>

datatype legacy_item =
  LegacyStr string
| LegacyDict "string option" "string option" "string option"

record legacy_data =
  ld_pinned :: "legacy_item list option"
  ld_history :: "legacy_item list option"

definition empty_dict :: clip_dict where
  "empty_dict =
     \<lparr>d_type = None, d_content = None, d_tag = None, d_is_pinned = None, d_pin_order = None,
      d_hash = None, d_group_name = None, d_created_at = None, d_updated_at = None\<rparr>"

fun normalize_clip_item :: "legacy_item \<Rightarrow> clip_dict" where
  "normalize_clip_item (LegacyDict ty c tg) =
     empty_dict\<lparr>d_type := Some (dict_get ty ''text''),
                d_content := Some (dict_get c []),
                d_tag := Some (dict_get tg [])\<rparr>"
| "normalize_clip_item (LegacyStr item) =
     empty_dict\<lparr>d_type := Some ''text'', d_content := Some item, d_tag := Some []\<rparr>"

text \<open>The first loop of \<^verbatim>\<open>import_legacy_json\<close>, over \<^verbatim>\<open>enumerate(pinned)\<close>.\<close>

fun legacy_pinned :: "string \<Rightarrow> nat \<Rightarrow> nat \<Rightarrow> legacy_item list \<Rightarrow> clip_dict list" where
  "legacy_pinned now len i [] = []"
| "legacy_pinned now len i (item # items) =
     (normalize_clip_item item)
        \<lparr>d_is_pinned := Some True, d_pin_order := Some (int len - int i),
         d_created_at := Some now, d_updated_at := Some now\<rparr>
     # legacy_pinned now len (Suc i) items"

text \<open>The second loop, over the history.\<close>

fun legacy_history :: "string \<Rightarrow> legacy_item list \<Rightarrow> clip_dict list" where
  "legacy_history now [] = []"
| "legacy_history now (item # items) =
     (normalize_clip_item item)
        \<lparr>d_is_pinned := Some False, d_pin_order := Some 0,
         d_created_at := Some now, d_updated_at := Some now\<rparr>
     # legacy_history now items"

text \<open>
  The top level of the parsed legacy file: an object with its two lists, or any other
  JSON value.
\<close>

datatype legacy_top = LegacyNotObject | LegacyObject legacy_data

text \<open>
  \<^verbatim>\<open>import_legacy_json\<close>. The \<^verbatim>\<open>except\<close> clause names \<^verbatim>\<open>JSONDecodeError\<close>,
  \<^verbatim>\<open>KeyError\<close>, \<^verbatim>\<open>TypeError\<close> and \<^verbatim>\<open>OSError\<close>: for a file that cannot be opened
  or is not JSON the function returns \<^verbatim>\<open>None\<close>; the \<^verbatim>\<open>UnicodeDecodeError\<close> of a
  file that is not UTF-8 and the \<^verbatim>\<open>AttributeError\<close> of \<^verbatim>\<open>data.get\<close> on a top level
  that is not an object leave the function.
\<close>

definition import_legacy_json ::
  "string \<Rightarrow> legacy_top file_read \<Rightarrow> error + clip_dict list option" where
  "import_legacy_json now file =
     (case file of
        ReadOSError \<Rightarrow> Inr None
      | ReadJSONError \<Rightarrow> Inr None
      | ReadUnicodeError \<Rightarrow> Inl UnicodeDecodeError
      | Parsed LegacyNotObject \<Rightarrow> Inl AttributeError
      | Parsed (LegacyObject data) \<Rightarrow>
          let pinned = dict_get (ld_pinned data) [];
              history = dict_get (ld_history data) []
          in Inr (Some (legacy_pinned now (length pinned) 0 pinned @ legacy_history now history)))"

text \<open>
  \<^verbatim>\<open>ClipboardManager._init_data\<close>. \<open>valid_backup\<close> is the outcome of
  \<^verbatim>\<open>find_valid_backup\<close>: the exception that left it, or the clip list it returned
  (\<open>None\<close> when no backup is valid); \<open>data_file\<close> is \<open>None\<close> when \<^verbatim>\<open>data.json\<close>
  does not exist. The function catches nothing.
\<close>

definition init_data ::
  "(string \<Rightarrow> string) \<Rightarrow> (nat \<Rightarrow> string) \<Rightarrow> string \<Rightarrow> error + clip_dict list option
     \<Rightarrow> legacy_top file_read option \<Rightarrow> storage \<Rightarrow> error + storage" where
  "init_data md5 now_at now valid_backup data_file s =
     (if is_db_valid s \<and> get_clip_count s > 0 then Inr s
      else
        (case valid_backup of
           Inl e \<Rightarrow> Inl e
         | Inr (Some (clip # clips)) \<Rightarrow> Inr (fst (import_clips md5 now_at (clip # clips) s))
         | Inr _ \<Rightarrow>
             (case data_file of
                None \<Rightarrow> Inr s
              | Some file \<Rightarrow>
                  (case import_legacy_json now file of
                     Inl e \<Rightarrow> Inl e
                   | Inr (Some (clip # clips)) \<Rightarrow>
                       Inr (fst (import_clips md5 now_at (clip # clips) s))
                   | Inr _ \<Rightarrow> Inr s))))"

section \<open>Backups (backup_manager.py, backup.py)\<close>

text \<open>
  A parsed JSON document. Objects are association lists in key order; numbers are the
  integers the backups hold (floating-point numbers are left out).
\<close>

datatype json =
  JNull
| JBool bool
| JInt int
| JStr string
| JList "json list"
| JObj "(string \<times> json) list"




definition BACKUP_PREFIX :: string where
  "BACKUP_PREFIX = ''clipboard_backup_''"

definition BACKUP_SUFFIX :: string where
  "BACKUP_SUFFIX = ''.json''"


text \<open>
  \<^verbatim>\<open>compute_checksum\<close>: the SHA-256 hex digest of the UTF-8 encoding of the data. The
  digest is the parameter \<open>sha256\<close>; the canonical serialization
  \<^verbatim>\<open>json.dumps(..., ensure_ascii=False, sort_keys=True)\<close> is the parameter \<open>dumps\<close>.
  The strings of the model are texts that have a UTF-8 encoding, so encoding the
  serialization does not fail.
\<close>

definition compute_checksum :: "(string \<Rightarrow> string) \<Rightarrow> string \<Rightarrow> string" where
  "compute_checksum sha256 data = sha256 data"

subsection \<open>The backup directory\<close>

text \<open>
  The backup directory: the files by name, each with what opening and parsing it gives.
\<close>

type_synonym backup_dir = "(string \<times> json file_read) list"

text \<open>The glob pattern \<^verbatim>\<open>clipboard_backup_*.json\<close>.\<close>

definition is_backup_name :: "string \<Rightarrow> bool" where
  "is_backup_name f =
     (take (length BACKUP_PREFIX) f = BACKUP_PREFIX \<and>
      (let rest = drop (length BACKUP_PREFIX) f
       in length BACKUP_SUFFIX \<le> length rest \<and>
          drop (length rest - length BACKUP_SUFFIX) rest = BACKUP_SUFFIX))"

text \<open>\<^verbatim>\<open>sorted(glob.glob(pattern), reverse=True)\<close>\<close>

definition get_backup_files :: "backup_dir \<Rightarrow> string list" where
  "get_backup_files d = rev (sort (filter is_backup_name (map fst d)))"




subsection \<open>Writing and validating a backup (backup_manager.py)\<close>



text \<open>
  \<^verbatim>\<open>validate_backup\<close> of backup\_manager.py, on what opening and parsing the file
  gives. The \<^verbatim>\<open>except\<close> clause names \<^verbatim>\<open>JSONDecodeError\<close>, \<^verbatim>\<open>KeyError\<close>,
  \<^verbatim>\<open>TypeError\<close> and \<^verbatim>\<open>OSError\<close>: a file that cannot be opened or is not JSON gives
  \<^verbatim>\<open>(False, None)\<close>, and so does a document that is not an object, where the
  membership test or the subscript raises \<^verbatim>\<open>TypeError\<close>; the
  \<^verbatim>\<open>UnicodeDecodeError\<close> of a file that is not UTF-8 leaves the function.
\<close>

definition validate_backup ::
  "(json \<Rightarrow> string) \<Rightarrow> (string \<Rightarrow> string) \<Rightarrow> json file_read
     \<Rightarrow> error + (bool \<times> json option)" where
  "validate_backup dumps sha256 file =
     (case file of
        ReadOSError \<Rightarrow> Inr (False, None)
      | ReadJSONError \<Rightarrow> Inr (False, None)
      | ReadUnicodeError \<Rightarrow> Inl UnicodeDecodeError
      | Parsed (JObj data) \<Rightarrow>
          (case (map_of data ''clips'', map_of data ''checksum'') of
             (Some clips, Some stored_checksum) \<Rightarrow>
               let clips_json = dumps clips;
                   computed_checksum = compute_checksum sha256 clips_json
               in if stored_checksum \<noteq> JStr computed_checksum then Inr (False, None)
                  else Inr (True, Some clips)
           | _ \<Rightarrow> Inr (False, None))
      | Parsed _ \<Rightarrow> Inr (False, None))"

text \<open>
  \<^verbatim>\<open>find_valid_backup\<close>: the loop over the files, newest first. It catches nothing,
  so an exception of \<^verbatim>\<open>validate_backup\<close> ends it.
\<close>

fun find_valid ::
  "(json \<Rightarrow> string) \<Rightarrow> (string \<Rightarrow> string) \<Rightarrow> backup_dir \<Rightarrow> string list
     \<Rightarrow> error + (string option \<times> json option)" where
  "find_valid dumps sha256 d [] = Inr (None, None)"
| "find_valid dumps sha256 d (filepath # files) =
     (case validate_backup dumps sha256
             (case map_of d filepath of Some c \<Rightarrow> c | None \<Rightarrow> ReadOSError) of
        Inl e \<Rightarrow> Inl e
      | Inr (True, Some clips) \<Rightarrow> Inr (Some filepath, Some clips)
      | Inr _ \<Rightarrow> find_valid dumps sha256 d files)"

definition find_valid_backup ::
  "(json \<Rightarrow> string) \<Rightarrow> (string \<Rightarrow> string) \<Rightarrow> backup_dir
     \<Rightarrow> error + (string option \<times> json option)" where
  "find_valid_backup dumps sha256 d = find_valid dumps sha256 d (get_backup_files d)"

subsection \<open>Writing and validating a backup (backup.py)\<close>



subsection \<open>A run of backups\<close>



section \<open>Backup scheduler (backup_manager.py)\<close>

text \<open>
  A \<^verbatim>\<open>threading.Timer\<close> that has been started: the time at which it will call its
  function, whether \<^verbatim>\<open>cancel()\<close> has been called on it, and whether it has run.
  Time is in seconds.
\<close>

record timer =
  deadline :: real
  cancelled :: bool
  fired :: bool

text \<open>
  A \<^verbatim>\<open>BackupScheduler\<close>: every timer it has started, \<^verbatim>\<open>self._timer\<close> as an index
  into them, and the times at which \<^verbatim>\<open>backup_func\<close> has been invoked.
\<close>

record scheduler =
  timers :: "timer list"
  cur :: "nat option"
  backup_calls :: "real list"

definition debounce_seconds :: real where
  "debounce_seconds = 30"

definition init_scheduler :: scheduler where
  "init_scheduler = \<lparr>timers = [], cur = None, backup_calls = []\<rparr>"

text \<open>\<^verbatim>\<open>Timer.cancel()\<close>\<close>

definition timer_cancel :: "nat \<Rightarrow> timer list \<Rightarrow> timer list" where
  "timer_cancel i tms = (if i < length tms then tms[i := (tms ! i)\<lparr>cancelled := True\<rparr>] else tms)"

definition schedule :: "real \<Rightarrow> scheduler \<Rightarrow> scheduler" where
  "schedule now s =
     (let tms = (case cur s of None \<Rightarrow> timers s | Some i \<Rightarrow> timer_cancel i (timers s))
      in s\<lparr>timers := tms @ [\<lparr>deadline = now + debounce_seconds, cancelled = False, fired = False\<rparr>],
           cur := Some (length tms)\<rparr>)"

text \<open>
  \<^verbatim>\<open>_execute_backup\<close>, run at time \<open>now\<close>. An exception of \<^verbatim>\<open>backup_func\<close> is
  swallowed; the invocation is recorded either way.
\<close>

definition execute_backup :: "real \<Rightarrow> scheduler \<Rightarrow> scheduler" where
  "execute_backup now s = s\<lparr>cur := None, backup_calls := backup_calls s @ [now]\<rparr>"

definition force_now :: "real \<Rightarrow> scheduler \<Rightarrow> scheduler" where
  "force_now now s =
     (let s1 = (case cur s of None \<Rightarrow> s
                | Some i \<Rightarrow> s\<lparr>timers := timer_cancel i (timers s), cur := None\<rparr>)
      in s1\<lparr>backup_calls := backup_calls s1 @ [now]\<rparr>)"

definition cancel :: "scheduler \<Rightarrow> scheduler" where
  "cancel s =
     (case cur s of None \<Rightarrow> s
      | Some i \<Rightarrow> s\<lparr>timers := timer_cancel i (timers s), cur := None\<rparr>)"

text \<open>
  The thread of timer \<open>i\<close>, seen at time \<open>t\<close>: once its deadline has come it calls
  \<^verbatim>\<open>_execute_backup\<close>, unless it was cancelled or has run already.
\<close>

definition timer_run :: "real \<Rightarrow> nat \<Rightarrow> scheduler \<Rightarrow> scheduler" where
  "timer_run t i s =
     (if i < length (timers s) then
        (let tm = timers s ! i
         in if deadline tm \<le> t \<and> \<not> cancelled tm \<and> \<not> fired tm then
              execute_backup (deadline tm) (s\<lparr>timers := (timers s)[i := tm\<lparr>fired := True\<rparr>]\<rparr>)
            else s)
      else s)"

text \<open>Time passes up to \<open>t\<close>: every timer that is due runs, in the order of starting.\<close>

definition advance :: "real \<Rightarrow> scheduler \<Rightarrow> scheduler" where
  "advance t s = fold (timer_run t) [0..<length (timers s)] s"

text \<open>A run of \<^verbatim>\<open>schedule()\<close> calls at the given times, with time passing in between.\<close>

fun notify_all :: "real list \<Rightarrow> scheduler \<Rightarrow> scheduler" where
  "notify_all [] s = s"
| "notify_all (t # ts) s = notify_all ts (schedule t (advance t s))"

text \<open>Call times in order, each less than the debounce interval after the one before.\<close>

fun spaced :: "real list \<Rightarrow> bool" where
  "spaced [] = True"
| "spaced [a] = True"
| "spaced (a # b # r) = (a \<le> b \<and> b < a + debounce_seconds \<and> spaced (b # r))"

text \<open>
  The state after a call at time \<open>t\<close> in such a run: no backup yet, one live timer
  due at \<open>t\<close> plus the interval, every earlier timer cancelled.
\<close>

definition armed :: "real \<Rightarrow> scheduler \<Rightarrow> bool" where
  "armed t s =
     (backup_calls s = [] \<and>
      (\<exists>pre. timers s = pre @ [\<lparr>deadline = t + debounce_seconds, cancelled = False, fired = False\<rparr>]
           \<and> list_all cancelled pre \<and> cur s = Some (length pre)))"

section \<open>Sample inputs\<close>

text \<open>
  The digests are parameters of the model. A run on concrete input instantiates them
  with this injective stand-in: the runs below depend only on which inputs have equal
  digests.
\<close>

definition sample_digest :: "string \<Rightarrow> string" where
  "sample_digest x = CHR ''#'' # x"

definition sample_storage :: storage where
  "sample_storage =
     \<lparr>rows = [\<lparr>clip_id = 1, clip_type = ''text'', content = ''a'', hash = sample_digest ''a'',
               tag = [], group_name = [], is_pinned = False, pin_order = 0,
               created_at = ''t0'', updated_at = ''t0''\<rparr>],
      seq = 1, need_backup = False, backup_callback = True, callback_calls = 0\<rparr>"

text \<open>A record whose hash is the one the row of \<open>sample_storage\<close> already holds.\<close>

definition colliding_clip :: clip_dict where
  "colliding_clip = empty_dict\<lparr>d_content := Some ''a'', d_hash := Some (sample_digest ''a'')\<rparr>"

text \<open>The legacy file \<^verbatim>\<open>{"pinned": ["a", "b"]}\<close>.\<close>

definition legacy_ab :: legacy_data where
  "legacy_ab = \<lparr>ld_pinned = Some [LegacyStr ''a'', LegacyStr ''b''], ld_history = None\<rparr>"

text \<open>Two pinned clips as a backup holds them, with distinct hashes and pin orders 2 and 1.\<close>

definition backup_pinned :: "clip_dict list" where
  "backup_pinned =
     [empty_dict\<lparr>d_type := Some ''text'', d_content := Some ''a'', d_hash := Some ''h1'',
                 d_is_pinned := Some True, d_pin_order := Some 2\<rparr>,
      empty_dict\<lparr>d_type := Some ''text'', d_content := Some ''b'', d_hash := Some ''h2'',
                 d_is_pinned := Some True, d_pin_order := Some 1\<rparr>]"

text \<open>
  Two pinned clips with pin orders 1 and 2 and two clips of the history, as
  pinning two of four added clips leaves them.
\<close>

definition four_clips :: storage where
  "four_clips =
     \<lparr>rows = map (\<lambda>(i, c, p, k).
                   \<lparr>clip_id = i, clip_type = ''text'', content = c, hash = sample_digest c,
                    tag = [], group_name = [], is_pinned = p, pin_order = k,
                    created_at = ''t0'', updated_at = ''t0''\<rparr>)
               [(1, ''a'', True, 1), (2, ''b'', True, 2), (3, ''c'', False, 0), (4, ''d'', False, 0)],
      seq = 4, need_backup = False, backup_callback = False, callback_calls = 0\<rparr>"

text \<open>Two pinned clips with pin orders 1 and 2.\<close>

definition pinned_pair :: storage where
  "pinned_pair =
     \<lparr>rows = [\<lparr>clip_id = 1, clip_type = ''text'', content = ''a'', hash = sample_digest ''a'',
               tag = [], group_name = [], is_pinned = True, pin_order = 1,
               created_at = ''t0'', updated_at = ''t1''\<rparr>,
              \<lparr>clip_id = 2, clip_type = ''text'', content = ''b'', hash = sample_digest ''b'',
               tag = [], group_name = [], is_pinned = True, pin_order = 2,
               created_at = ''t0'', updated_at = ''t2''\<rparr>],
      seq = 2, need_backup = False, backup_callback = True, callback_calls = 0\<rparr>"

subsection \<open>A sample serializer\<close>










text \<open>
  The store after a recovery that imports the two pinned clips of \<open>backup_pinned\<close>,
  followed by adding a third clip and pinning it.
\<close>

definition imported_pins :: storage where
  "imported_pins =
     (let s1 = fst (import_clips sample_digest (\<lambda>_. ''t0'') backup_pinned empty_storage)
      in case add_clip sample_digest ''text'' ''c'' [] ''t1'' s1 of
           Inr (s2, _) \<Rightarrow> fst (pin_clip ''t2'' 3 s2)
         | Inl _ \<Rightarrow> s1)"

section \<open>Verified properties\<close>

subsection \<open>Facts about the SQL helpers\<close>

lemma rows_mark_dirty [simp]: "rows (mark_dirty s) = rows s"
  by (simp add: mark_dirty_def Let_def)

lemma seq_mark_dirty [simp]: "seq (mark_dirty s) = seq s"
  by (simp add: mark_dirty_def Let_def)


lemma map_clip_id_update_by_id:
  "(\<And>r. clip_id (f r) = clip_id r) \<Longrightarrow> map clip_id (update_by_id i f rs) = map clip_id rs"
  by (induction rs) (auto simp: update_by_id_def)

lemma fold_max_ge: "(x::int) \<in> set xs \<Longrightarrow> x \<le> fold max xs a"
proof (induction xs arbitrary: a)
  case Nil then show ?case by simp
next
  case (Cons y ys)
  have mono: "\<And>b. b \<le> fold max ys b"
  proof -
    fix b :: int show "b \<le> fold max ys b"
      by (induction ys arbitrary: b) (auto intro: order_trans[OF max.cobounded2])
  qed
  from Cons show ?case
    by (auto intro: order_trans[OF _ mono])
qed

lemma next_rowid_fresh: "r \<in> set (rows s) \<Longrightarrow> clip_id r < next_rowid s"
  using fold_max_ge[of "clip_id r" "map clip_id (rows s)" "seq s"]
  by (auto simp: next_rowid_def)



lemma find_in_set: "find P xs = Some x \<Longrightarrow> x \<in> set xs \<and> P x"
  by (induction xs) (auto split: if_splits)


lemma update_by_id_fresh: "\<forall>r \<in> set rs. clip_id r \<noteq> i \<Longrightarrow> update_by_id i f rs = rs"
  by (induction rs) (auto simp: update_by_id_def)


subsection \<open>Deduplication in add_clip\<close>



subsection \<open>The count returned by import_clips\<close>

lemma import_loop_count: "snd (import_loop md5 now_at i clips acc) = snd acc + length clips"
  by (induction clips arbitrary: i acc) (simp_all add: import_one_def Let_def)

lemma import_clips_count: "snd (import_clips md5 now_at clips s) = length clips"
  by (simp add: import_clips_def import_loop_count)

text \<open>
  Claim C2. \<^verbatim>\<open>import_clips\<close> is to return the number of records it inserted, and 0 when
  every record collides with a hash already stored. The code counts every record it
  processes: importing one record whose hash the table already holds leaves the table as
  it was and still returns 1.
\<close>

theorem import_clips_counts_ignored_rows:
  "rows (fst (import_clips digest now_at [colliding_clip] sample_storage)) = rows sample_storage
   \<and> snd (import_clips digest now_at [colliding_clip] sample_storage) = 1"
  by (simp add: import_clips_def import_one_def insert_or_ignore_def sample_storage_def
      colliding_clip_def dict_get_def empty_dict_def type_check_def Let_def sample_digest_def)

subsection \<open>Pin order after an import\<close>

text \<open>
  Claim C4. Recovery from the legacy file \<^verbatim>\<open>{"pinned": ["a", "b"]}\<close> is to give two
  pinned clips with pin orders 2 and 1. \<^verbatim>\<open>import_legacy_json\<close> does assign 2 and 1 to
  the records, but \<^verbatim>\<open>import_clips\<close> does not write the column: the recovered store is
  not empty and every row of it is pinned with \<^verbatim>\<open>pin_order\<close> 0.
\<close>

theorem legacy_import_drops_pin_order:
  "(case import_legacy_json now (Parsed (LegacyObject legacy_ab)) of
      Inr (Some clips) \<Rightarrow> map d_pin_order clips = [Some 2, Some 1]
    | _ \<Rightarrow> False)
   \<and> (case init_data digest now_at now (Inr None) (Some (Parsed (LegacyObject legacy_ab)))
             empty_storage of
         Inr s \<Rightarrow> rows s \<noteq> [] \<and> list_all (\<lambda>r. is_pinned r \<and> pin_order r = 0) (rows s)
       | Inl e \<Rightarrow> False)"
  by (simp add: init_data_def import_legacy_json_def legacy_ab_def dict_get_def
      import_clips_def import_one_def insert_or_ignore_def empty_dict_def type_check_def
      Let_def empty_storage_def get_clip_count_def is_db_valid_def)

text \<open>
  Claim C6. \<^verbatim>\<open>pin_order\<close> is to be unique among the pinned clips in every state the
  public operations reach. Importing two pinned clips into the empty store gives two
  pinned rows that both have \<^verbatim>\<open>pin_order\<close> 0.
\<close>

theorem import_breaks_pin_order_unique:
  "\<not> pin_order_unique (rows (fst (import_clips digest now_at backup_pinned empty_storage)))"
  by (simp add: pin_order_unique_def backup_pinned_def dict_get_def
      import_clips_def import_one_def insert_or_ignore_def empty_dict_def type_check_def
      Let_def empty_storage_def)

text \<open>
  A second way to the same state needs no import: \<^verbatim>\<open>move_clip\<close> with
  \<^verbatim>\<open>is_pinned=True\<close> does not check that the clip it moves is pinned, so moving
  clips of the history exchanges their order 0 with the orders of pinned clips.
\<close>

lemma move_of_unpinned_clip_breaks_pin_order_unique:
  "pin_order_unique (rows four_clips)
   \<and> map (\<lambda>r. (clip_id r, is_pinned r, pin_order r))
         (rows (fst (move_clip stamp 4 1 True
                  (fst (move_clip stamp 3 1 True (fst (move_clip stamp 3 1 True four_clips)))))))
       = [(1, True, 0), (2, True, 0), (3, False, 2), (4, False, 1)]"
  by (simp add: four_clips_def pin_order_unique_def move_clip_def update_by_id_def Let_def)

subsection \<open>Marking the store dirty\<close>

lemma dirty_once_mark_dirty:
  "need_backup s0 = need_backup s \<Longrightarrow> backup_callback s0 = backup_callback s \<Longrightarrow>
   callback_calls s0 = callback_calls s \<Longrightarrow> dirty_once s (mark_dirty s0)"
  by (simp add: dirty_once_def mark_dirty_def Let_def)

lemma insert_or_ignore_flags:
  "need_backup (insert_or_ignore ty c h tg p cr up s) = need_backup s"
  "backup_callback (insert_or_ignore ty c h tg p cr up s) = backup_callback s"
  "callback_calls (insert_or_ignore ty c h tg p cr up s) = callback_calls s"
  by (simp_all add: insert_or_ignore_def)

lemma import_loop_flags:
  "need_backup (fst (import_loop digest now_at i clips acc)) = need_backup (fst acc)
   \<and> backup_callback (fst (import_loop digest now_at i clips acc)) = backup_callback (fst acc)
   \<and> callback_calls (fst (import_loop digest now_at i clips acc)) = callback_calls (fst acc)"
  by (induction clips arbitrary: i acc)
     (simp_all add: import_one_def Let_def insert_or_ignore_flags)

lemma add_clip_dirty:
  "(case add_clip digest ctype c tg now s of
      Inl e \<Rightarrow> True
    | Inr (s', r) \<Rightarrow> dirty_once s s')"
  by (simp add: add_clip_def Let_def dirty_once_mark_dirty split: option.splits)

lemma move_clip_dirty:
  "(if snd (move_clip stamp i d p s)
    then dirty_once s (fst (move_clip stamp i d p s))
    else fst (move_clip stamp i d p s) = s)"
  by (simp add: move_clip_def Let_def dirty_once_mark_dirty split: option.splits)

text \<open>
  Claim C7, as the code has it. Every call of \<^verbatim>\<open>add_clip\<close> that returns,
  \<^verbatim>\<open>pin_clip\<close>, \<^verbatim>\<open>unpin_clip\<close>, \<^verbatim>\<open>delete_clip\<close>, \<^verbatim>\<open>update_tag\<close>,
  \<^verbatim>\<open>update_group\<close>, \<^verbatim>\<open>clear_history\<close> and \<^verbatim>\<open>clear_pinned\<close> sets the dirty flag
  and invokes the registered callback exactly once; so does \<^verbatim>\<open>move_clip\<close> when it
  returns \<^verbatim>\<open>True\<close>, and when it returns \<^verbatim>\<open>False\<close> (the clip is not in the list) it
  leaves the store as it was. \<^verbatim>\<open>import_clips\<close> changes neither the flag nor the number
  of callback invocations.
\<close>

theorem mark_dirty_once_per_call:
  "(case add_clip digest ctype c tg now s of
      Inl e \<Rightarrow> True
    | Inr (s', r) \<Rightarrow> dirty_once s s')
   \<and> dirty_once s (fst (pin_clip now i s))
   \<and> dirty_once s (fst (unpin_clip now i s))
   \<and> dirty_once s (fst (delete_clip i s))
   \<and> dirty_once s (fst (update_tag i tg s))
   \<and> dirty_once s (fst (update_group i g s))
   \<and> dirty_once s (fst (clear_history s))
   \<and> dirty_once s (fst (clear_pinned s))
   \<and> (if snd (move_clip stamp i d p s)
       then dirty_once s (fst (move_clip stamp i d p s))
       else fst (move_clip stamp i d p s) = s)
   \<and> need_backup (fst (import_clips digest now_at clips s)) = need_backup s
   \<and> callback_calls (fst (import_clips digest now_at clips s)) = callback_calls s"
proof -
  have imp: "need_backup (fst (import_clips digest now_at clips s)) = need_backup s"
    "callback_calls (fst (import_clips digest now_at clips s)) = callback_calls s"
    using import_loop_flags[of digest now_at 0 clips "(s, 0)"] by (simp_all add: import_clips_def)
  have ops: "dirty_once s (fst (pin_clip now i s))" "dirty_once s (fst (unpin_clip now i s))"
    "dirty_once s (fst (delete_clip i s))" "dirty_once s (fst (update_tag i tg s))"
    "dirty_once s (fst (update_group i g s))" "dirty_once s (fst (clear_history s))"
    "dirty_once s (fst (clear_pinned s))"
    by (simp_all add: pin_clip_def unpin_clip_def delete_clip_def update_tag_def
        update_group_def clear_history_def clear_pinned_def Let_def dirty_once_mark_dirty)
  show ?thesis
    using add_clip_dirty[where digest=digest and ctype=ctype and c=c and tg=tg and now=now and s=s]
      move_clip_dirty[where stamp=stamp and i=i and d=d and p=p and s=s] imp ops
    by simp
qed

text \<open>
  The claim as stated fails: an import that inserts a row into a clean store with a
  registered callback leaves the flag unset and the callback not invoked, and a move of
  a clip that does not exist marks nothing either.
\<close>

theorem import_clips_not_marked_dirty:
  "\<not> dirty_once sample_storage
        (fst (import_clips sample_digest (\<lambda>_. ''t1'') [empty_dict\<lparr>d_content := Some ''b''\<rparr>] sample_storage))
   \<and> length (rows (fst (import_clips sample_digest (\<lambda>_. ''t1'') [empty_dict\<lparr>d_content := Some ''b''\<rparr>] sample_storage))) = 2
   \<and> \<not> dirty_once sample_storage (fst (move_clip (\<lambda>_. ''t1'') 99 1 True sample_storage))"
  by (simp add: dirty_once_def import_clips_def import_one_def insert_or_ignore_def
      sample_storage_def dict_get_def empty_dict_def type_check_def Let_def sample_digest_def
      compute_hash_def next_rowid_def move_clip_def)

theorem mark_dirty_once_per_call_witness:
  "(\<exists>s'. add_clip sample_digest ''text'' ''b'' [] ''t1'' sample_storage = Inr (s', 2, True)
         \<and> dirty_once sample_storage s')
   \<and> dirty_once sample_storage (fst (pin_clip ''t1'' 1 sample_storage))
   \<and> snd (move_clip (\<lambda>_. ''t1'') 1 1 False sample_storage)
   \<and> dirty_once sample_storage (fst (move_clip (\<lambda>_. ''t1'') 1 1 False sample_storage))
   \<and> \<not> snd (move_clip (\<lambda>_. ''t1'') 99 1 True sample_storage)
   \<and> fst (move_clip (\<lambda>_. ''t1'') 99 1 True sample_storage) = sample_storage"
proof -
  have a: "add_clip sample_digest ''text'' ''b'' [] ''t1'' sample_storage
      = Inr (mark_dirty (sample_storage\<lparr>rows := rows sample_storage @
               [\<lparr>clip_id = 2, clip_type = ''text'', content = ''b'',
                 hash = compute_hash sample_digest ''b'', tag = [], group_name = [],
                 is_pinned = False, pin_order = 0, created_at = ''t1'', updated_at = ''t1''\<rparr>],
               seq := 2\<rparr>), 2, True)"
    by (simp add: add_clip_def sample_storage_def sample_digest_def compute_hash_def
        type_check_def next_rowid_def Let_def)
  have m1: "snd (move_clip (\<lambda>_. ''t1'') 1 1 False sample_storage)"
    by (simp add: move_clip_def sample_storage_def history_order_def Let_def)
  have m2: "\<not> snd (move_clip (\<lambda>_. ''t1'') 99 1 True sample_storage)"
    by (simp add: move_clip_def sample_storage_def Let_def)
  from mark_dirty_once_per_call[where digest=sample_digest and ctype="''text''" and c="''b''"
      and tg="[]" and now="''t1''" and s=sample_storage and i=1 and stamp="\<lambda>_. ''t1''"
      and d=1 and p=False]
    mark_dirty_once_per_call[where digest=sample_digest and ctype="''text''" and c="''b''"
      and tg="[]" and now="''t1''" and s=sample_storage and i=99 and stamp="\<lambda>_. ''t1''"
      and d=1 and p=True]
  show ?thesis using a m1 m2 by simp
qed

subsection \<open>Moving a pinned clip\<close>

lemma swap_row_fields:
  "clip_id (swap_row i a j b r) = clip_id r"
  "is_pinned (swap_row i a j b r) = is_pinned r"
  "pin_order (swap_row i a j b r) =
     (if clip_id r = j then b else if clip_id r = i then a else pin_order r)"
  by (simp_all add: swap_row_def)

lemma find_first_by_id:
  "distinct (map clip_id rs) \<Longrightarrow> x \<in> set rs \<Longrightarrow> find (\<lambda>r. clip_id r = clip_id x) rs = Some x"
  by (induction rs) (auto simp: image_iff)

lemma find_unique:
  assumes "x \<in> set xs" "P x" and u: "\<And>y. y \<in> set xs \<Longrightarrow> P y \<Longrightarrow> y = x"
  shows "find P xs = Some x"
proof (cases "find P xs")
  case None
  with assms(1,2) show ?thesis by (simp add: find_None_iff)
next
  case (Some z)
  from find_in_set[OF Some] have "z = x" by (intro u) simp_all
  with Some show ?thesis by simp
qed

lemma same_id_same_row:
  "distinct (map clip_id rs) \<Longrightarrow> x \<in> set rs \<Longrightarrow> y \<in> set rs \<Longrightarrow> clip_id x = clip_id y \<Longrightarrow> x = y"
proof -
  assume d: "distinct (map clip_id rs)" and m: "x \<in> set rs" "y \<in> set rs" "clip_id x = clip_id y"
  from d have "inj_on clip_id (set rs)" by (simp add: distinct_map)
  from inj_onD[OF this m(3) m(1) m(2)] show ?thesis .
qed

lemma same_order_same_row:
  "pin_order_unique rs \<Longrightarrow> x \<in> set rs \<Longrightarrow> y \<in> set rs \<Longrightarrow> is_pinned x \<Longrightarrow> is_pinned y
   \<Longrightarrow> pin_order x = pin_order y \<Longrightarrow> x = y"
proof -
  assume d: "pin_order_unique rs" and m: "x \<in> set rs" "y \<in> set rs" "is_pinned x" "is_pinned y"
    "pin_order x = pin_order y"
  from d have "inj_on pin_order (set (filter is_pinned rs))"
    by (simp add: pin_order_unique_def distinct_map)
  moreover from m have "x \<in> set (filter is_pinned rs)" "y \<in> set (filter is_pinned rs)" by simp_all
  ultimately show ?thesis using m(5) by (auto dest: inj_onD)
qed

lemma three_updates:
  "update_by_id j (\<lambda>r. r\<lparr>pin_order := b\<rparr>)
     (update_by_id j (\<lambda>r. r\<lparr>pin_order := b\<rparr>)
        (update_by_id i (\<lambda>r. r\<lparr>pin_order := a\<rparr>) rs))
   = map (swap_row i a j b) rs"
  by (induction rs) (simp_all add: update_by_id_def swap_row_def)

lemma move_pinned_rows:
  assumes "find (\<lambda>r. clip_id r = i) (rows s) = Some x"
    and "find (\<lambda>r. is_pinned r \<and> pin_order r = pin_order x + d) (rows s) = Some t"
  shows "move_clip stamp i d True s =
         (mark_dirty (s\<lparr>rows := map (swap_row i (pin_order x + d) (clip_id t) (pin_order x)) (rows s)\<rparr>), True)"
  using assms by (simp add: move_clip_def Let_def three_updates)

lemma move_pinned_boundary:
  assumes "find (\<lambda>r. clip_id r = i) (rows s) = Some x"
    and "find (\<lambda>r. is_pinned r \<and> pin_order r = pin_order x + d) (rows s) = None"
  shows "move_clip stamp i d True s = (mark_dirty s, True)"
  using assms by (simp add: move_clip_def Let_def)

lemma swap_back:
  assumes ids: "distinct (map clip_id rs)" and x: "x \<in> set rs" and t: "t \<in> set rs"
  shows "map (swap_row (clip_id x) (pin_order x) (clip_id t) (pin_order t))
           (map (swap_row (clip_id x) (pin_order t) (clip_id t) (pin_order x)) rs) = rs"
proof -
  have "swap_row (clip_id x) (pin_order x) (clip_id t) (pin_order t)
          (swap_row (clip_id x) (pin_order t) (clip_id t) (pin_order x) r) = r"
    if r: "r \<in> set rs" for r
  proof (cases "clip_id r = clip_id t")
    case True
    then have "r = t" using same_id_same_row[OF ids r t] by simp
    then show ?thesis by (simp add: swap_row_def)
  next
    case nj: False
    show ?thesis
    proof (cases "clip_id r = clip_id x")
      case True
      then have "r = x" using same_id_same_row[OF ids r x] by simp
      with nj show ?thesis by (simp add: swap_row_def)
    next
      case False
      with nj show ?thesis by (simp add: swap_row_def)
    qed
  qed
  then show ?thesis by (simp add: map_idI)
qed

lemma target_after_swap:
  assumes ids: "distinct (map clip_id rs)" and ord: "pin_order_unique rs"
    and x: "x \<in> set rs" "is_pinned x"
    and t: "t \<in> set rs" "is_pinned t"
  shows "find (\<lambda>r. is_pinned r \<and> pin_order r = pin_order x)
           (map (swap_row (clip_id x) (pin_order t) (clip_id t) (pin_order x)) rs)
         = Some (swap_row (clip_id x) (pin_order t) (clip_id t) (pin_order x) t)"
proof (rule find_unique)
  let ?phi = "swap_row (clip_id x) (pin_order t) (clip_id t) (pin_order x)"
  show "?phi t \<in> set (map ?phi rs)" using t(1) by simp
  show "is_pinned (?phi t) \<and> pin_order (?phi t) = pin_order x"
    using t(2) by (simp add: swap_row_fields)
  fix y assume y: "y \<in> set (map ?phi rs)" "is_pinned y \<and> pin_order y = pin_order x"
  from y(1) obtain r where r: "r \<in> set rs" "y = ?phi r" by auto
  from y(2) r(2) have pr: "is_pinned r" by (simp add: swap_row_fields)
  show "y = ?phi t"
  proof (cases "clip_id r = clip_id t")
    case True
    then have "r = t" using same_id_same_row[OF ids r(1) t(1)] by simp
    with r show ?thesis by simp
  next
    case nj: False
    show ?thesis
    proof (cases "clip_id r = clip_id x")
      case True
      then have rx: "r = x" using same_id_same_row[OF ids r(1) x(1)] by simp
      from y(2) r(2) nj True have "pin_order t = pin_order x" by (simp add: swap_row_fields)
      then have "t = x" using same_order_same_row[OF ord t(1) x(1) t(2) x(2)] by simp
      with nj rx show ?thesis by simp
    next
      case False
      with nj y(2) r(2) have "pin_order r = pin_order x" by (simp add: swap_row_fields)
      then have "r = x" using same_order_same_row[OF ord r(1) x(1) pr x(2)] by simp
      with False show ?thesis by simp
    qed
  qed
qed

text \<open>
  The move where the data model's invariant holds. In a table with unique ids and
  unique pin orders among the pinned rows, let \<open>x\<close> be a pinned row.
  \<^verbatim>\<open>move_clip(id, d, True)\<close> looks for the pinned row \<open>t\<close> whose order is the order of
  \<open>x\<close> plus \<open>d\<close>. If there is none (the boundary), the table is unchanged. If there is
  one, the two rows exchange their pin orders and nothing else changes, and a following
  \<^verbatim>\<open>move_clip(id, -d, True)\<close> gives back the table as it was.
\<close>

lemma move_pinned_swap_inverse:
  assumes ids: "distinct (map clip_id (rows s))"
    and ord: "pin_order_unique (rows s)"
    and x: "x \<in> set (rows s)" "is_pinned x"
  shows "(case find (\<lambda>r. is_pinned r \<and> pin_order r = pin_order x + d) (rows s) of
            None \<Rightarrow> move_clip stamp (clip_id x) d True s = (mark_dirty s, True)
          | Some t \<Rightarrow>
              snd (move_clip stamp (clip_id x) d True s)
            \<and> rows (fst (move_clip stamp (clip_id x) d True s)) =
                map (\<lambda>r. if clip_id r = clip_id t then r\<lparr>pin_order := pin_order x\<rparr>
                         else if clip_id r = clip_id x then r\<lparr>pin_order := pin_order t\<rparr>
                         else r) (rows s)
            \<and> snd (move_clip stamp' (clip_id x) (- d) True (fst (move_clip stamp (clip_id x) d True s)))
            \<and> rows (fst (move_clip stamp' (clip_id x) (- d) True
                            (fst (move_clip stamp (clip_id x) d True s)))) = rows s)"
proof (cases "find (\<lambda>r. is_pinned r \<and> pin_order r = pin_order x + d) (rows s)")
  case None
  then show ?thesis
    using move_pinned_boundary[OF find_first_by_id[OF ids x(1)] None] by simp
next
  case (Some t)
  let ?i = "clip_id x" and ?j = "clip_id t" and ?c = "pin_order x"
  let ?phi = "swap_row ?i (pin_order t) ?j ?c"
  let ?rs1 = "map ?phi (rows s)"
  let ?s1 = "mark_dirty (s\<lparr>rows := ?rs1\<rparr>)"
  have fx: "find (\<lambda>r. clip_id r = ?i) (rows s) = Some x"
    by (rule find_first_by_id[OF ids x(1)])
  from find_in_set[OF Some] have t: "t \<in> set (rows s)" "is_pinned t" "pin_order t = ?c + d"
    by simp_all
  have m1: "move_clip stamp ?i d True s = (?s1, True)"
    using move_pinned_rows[OF fx Some] by (simp only: t(3))
  have ids1: "distinct (map clip_id ?rs1)"
  proof -
    have "clip_id \<circ> ?phi = clip_id" by (simp add: fun_eq_iff swap_row_fields)
    then have "map clip_id ?rs1 = map clip_id (rows s)" by (simp only: map_map)
    with ids show ?thesis by (simp only:)
  qed
  have x1: "?phi x \<in> set ?rs1" using x(1) by simp
  have px1: "pin_order (?phi x) = pin_order t"
  proof (cases "?i = ?j")
    case True
    then have "x = t" using same_id_same_row[OF ids x(1) t(1)] by simp
    then show ?thesis by (simp add: swap_row_fields)
  next
    case False then show ?thesis by (simp add: swap_row_fields)
  qed
  have fx1: "find (\<lambda>r. clip_id r = ?i) (rows ?s1) = Some (?phi x)"
    using find_first_by_id[OF ids1 x1] by (simp add: swap_row_fields)
  have back_order: "pin_order (?phi x) + - d = ?c" using px1 t(3) by simp
  have ft1: "find (\<lambda>r. is_pinned r \<and> pin_order r = pin_order (?phi x) + - d) (rows ?s1)
             = Some (?phi t)"
    using target_after_swap[OF ids ord x t(1,2)] by (simp only: back_order rows_mark_dirty) simp
  have m2: "move_clip stamp' ?i (- d) True ?s1 =
      (mark_dirty (?s1\<lparr>rows := map (swap_row ?i (pin_order (?phi x) + - d) (clip_id (?phi t))
                                     (pin_order (?phi x))) (rows ?s1)\<rparr>), True)"
    by (rule move_pinned_rows[OF fx1 ft1])
  have restore: "map (swap_row ?i (pin_order (?phi x) + - d) (clip_id (?phi t)) (pin_order (?phi x)))
                (rows ?s1) = rows s"
  proof -
    have rows1: "rows ?s1 = ?rs1" by simp
    show ?thesis
      apply (simp only: back_order)
      apply (simp only: px1 swap_row_fields(1) rows1)
      apply (rule swap_back[OF ids x(1) t(1)])
      done
  qed
  have r2: "rows (fst (move_clip stamp' ?i (- d) True (fst (move_clip stamp ?i d True s)))) = rows s"
    by (simp only: m1 fst_conv m2 restore) simp
  have s2: "snd (move_clip stamp' ?i (- d) True (fst (move_clip stamp ?i d True s)))"
    by (simp only: m1 fst_conv m2 snd_conv)
  have r1: "rows (fst (move_clip stamp ?i d True s)) =
      map (\<lambda>r. if clip_id r = ?j then r\<lparr>pin_order := ?c\<rparr>
               else if clip_id r = ?i then r\<lparr>pin_order := pin_order t\<rparr> else r) (rows s)"
    by (simp only: m1 fst_conv rows_mark_dirty) (simp add: swap_row_def)
  have s1: "snd (move_clip stamp ?i d True s)" by (simp only: m1 snd_conv)
  show ?thesis
    by (simp only: Some option.case) (intro conjI s1 r1 s2 r2)
qed

lemma move_pinned_swap_inverse_example:
  "distinct (map clip_id (rows pinned_pair)) \<and> pin_order_unique (rows pinned_pair)
   \<and> hd (rows pinned_pair) \<in> set (rows pinned_pair) \<and> is_pinned (hd (rows pinned_pair))
   \<and> map pin_order (rows (fst (move_clip (\<lambda>_. ''t3'') 1 1 True pinned_pair))) = [2, 1]
   \<and> rows (fst (move_clip (\<lambda>_. ''t4'') 1 (- 1) True
                  (fst (move_clip (\<lambda>_. ''t3'') 1 1 True pinned_pair)))) = rows pinned_pair
   \<and> move_clip (\<lambda>_. ''t3'') 1 (- 1) True pinned_pair = (mark_dirty pinned_pair, True)"
proof -
  have h: "distinct (map clip_id (rows pinned_pair))" "pin_order_unique (rows pinned_pair)"
    "hd (rows pinned_pair) \<in> set (rows pinned_pair)" "is_pinned (hd (rows pinned_pair))"
    by (simp_all add: pinned_pair_def pin_order_unique_def)
  have i: "clip_id (hd (rows pinned_pair)) = 1" "pin_order (hd (rows pinned_pair)) = 1"
    by (simp_all add: pinned_pair_def)
  have up: "find (\<lambda>r. is_pinned r \<and> pin_order r = 1 + 1) (rows pinned_pair)
            = Some (hd (tl (rows pinned_pair)))"
    by (simp add: pinned_pair_def)
  have down: "find (\<lambda>r. is_pinned r \<and> pin_order r = 1 + - 1) (rows pinned_pair) = None"
    by (simp add: pinned_pair_def)
  from move_pinned_swap_inverse[OF h, where d = 1 and stamp = "\<lambda>_. ''t3''" and stamp' = "\<lambda>_. ''t4''"]
  have a: "rows (fst (move_clip (\<lambda>_. ''t3'') 1 1 True pinned_pair)) =
             map (\<lambda>r. if clip_id r = 2 then r\<lparr>pin_order := 1\<rparr>
                      else if clip_id r = 1 then r\<lparr>pin_order := 2\<rparr> else r) (rows pinned_pair)"
    "rows (fst (move_clip (\<lambda>_. ''t4'') 1 (- 1) True
                  (fst (move_clip (\<lambda>_. ''t3'') 1 1 True pinned_pair)))) = rows pinned_pair"
    unfolding i up option.case by (simp_all add: pinned_pair_def)
  from move_pinned_swap_inverse[OF h, where d = "- 1" and stamp = "\<lambda>_. ''t3''"]
  have b: "move_clip (\<lambda>_. ''t3'') 1 (- 1) True pinned_pair = (mark_dirty pinned_pair, True)"
    unfolding i down option.case by simp
  have c: "map pin_order (rows (fst (move_clip (\<lambda>_. ''t3'') 1 1 True pinned_pair))) = [2, 1]"
    unfolding a(1) by (simp add: pinned_pair_def)
  show ?thesis using h a(2) b c by simp
qed

text \<open>
  Claim C8. A pinned move is to exchange the pin orders of the moved clip and of the clip
  that holds the order it moves to, so that moves by \<open>+1\<close> and \<open>-1\<close> undo each other
  when no boundary is crossed. After an import of two pinned clips both hold order 0, and
  the third clip, pinned afterwards, holds order 1. Moving clip 1 by \<open>+1\<close> finds clip 3
  and exchanges with it; moving clip 1 back by \<open>-1\<close> finds clip 2, not clip 3, and
  exchanges with that one: both moves find a target and the table is not the one before.
\<close>

theorem move_inverse_fails_after_import:
  "map row_key (rows imported_pins) = [(1, True, 0), (2, True, 0), (3, True, 1)]
   \<and> snd (move_clip stamp 1 1 True imported_pins)
   \<and> map row_key (rows (fst (move_clip stamp 1 1 True imported_pins)))
       = [(1, True, 1), (2, True, 0), (3, True, 0)]
   \<and> snd (move_clip stamp' 1 (- 1) True (fst (move_clip stamp 1 1 True imported_pins)))
   \<and> map row_key (rows (fst (move_clip stamp' 1 (- 1) True
                                 (fst (move_clip stamp 1 1 True imported_pins)))))
       = [(1, True, 0), (2, True, 1), (3, True, 0)]"
proof -
  have s: "map row_key (rows imported_pins) = [(1, True, 0), (2, True, 0), (3, True, 1)]"
    by (simp add: imported_pins_def backup_pinned_def import_clips_def import_one_def
        insert_or_ignore_def empty_dict_def dict_get_def type_check_def empty_storage_def
        add_clip_def compute_hash_def sample_digest_def next_rowid_def Let_def
        pin_clip_def max_pin_order_def update_by_id_def row_key_def)
  have r: "rows imported_pins =
      [\<lparr>clip_id = 1, clip_type = ''text'', content = ''a'', hash = ''h1'', tag = [],
         group_name = [], is_pinned = True, pin_order = 0,
         created_at = ''t0'', updated_at = ''t0''\<rparr>,
       \<lparr>clip_id = 2, clip_type = ''text'', content = ''b'', hash = ''h2'', tag = [],
         group_name = [], is_pinned = True, pin_order = 0,
         created_at = ''t0'', updated_at = ''t0''\<rparr>,
       \<lparr>clip_id = 3, clip_type = ''text'', content = ''c'', hash = ''#c'', tag = [],
         group_name = [], is_pinned = True, pin_order = 1,
         created_at = ''t1'', updated_at = ''t2''\<rparr>]"
    by (simp add: imported_pins_def backup_pinned_def import_clips_def import_one_def
        insert_or_ignore_def empty_dict_def dict_get_def type_check_def empty_storage_def
        add_clip_def compute_hash_def sample_digest_def next_rowid_def Let_def
        pin_clip_def max_pin_order_def update_by_id_def)
  show ?thesis
    by (simp add: s) (simp add: r move_clip_def update_by_id_def row_key_def Let_def)
qed

subsection \<open>Operations that keep the pin orders unique\<close>

text \<open>
  Every write operation but \<^verbatim>\<open>import_clips\<close> keeps ids and pin orders unique, the
  pinned move provided the clip it moves is pinned.
\<close>

lemma table_ok_keys: "map row_key rs' = map row_key rs \<Longrightarrow> table_ok rs' = table_ok rs"
proof -
  assume k: "map row_key rs' = map row_key rs"
  have ids: "map clip_id xs = map fst (map row_key xs)" for xs
    by (simp add: row_key_def)
  have ords: "map pin_order (filter is_pinned xs)
      = map (\<lambda>k. snd (snd k)) (filter (\<lambda>k. fst (snd k)) (map row_key xs))" for xs
    by (induction xs) (simp_all add: row_key_def)
  show ?thesis
    unfolding table_ok_def pin_order_unique_def ids ords k ..
qed

lemma update_by_id_keys:
  "(\<And>r. row_key (f r) = row_key r) \<Longrightarrow> map row_key (update_by_id i f rs) = map row_key rs"
  by (induction rs) (simp_all add: update_by_id_def)

lemma rewrite_times_keys: "map row_key (rewrite_times stamp n cids rs) = map row_key rs"
  by (induction cids arbitrary: n rs) (simp_all add: update_by_id_keys row_key_def)

lemma distinct_map_filter_conj:
  "distinct (map f (filter P xs)) \<Longrightarrow> distinct (map f (filter (\<lambda>x. P x \<and> Q x) xs))"
  using distinct_map_filter[of f "filter P xs" Q] by simp

lemma table_ok_delete: "table_ok rs \<Longrightarrow> table_ok (delete_where P rs)"
proof -
  assume ok: "table_ok rs"
  have "filter is_pinned (filter (\<lambda>r. \<not> P r) rs) = filter (\<lambda>r. is_pinned r \<and> \<not> P r) rs"
    by (simp add: conj_commute)
  then show ?thesis
    using ok by (simp add: table_ok_def pin_order_unique_def delete_where_def distinct_map_filter
        distinct_map_filter_conj)
qed

lemma table_ok_unpin:
  assumes "table_ok rs"
  shows "table_ok (update_by_id i (\<lambda>r. r\<lparr>is_pinned := False, pin_order := 0, updated_at := now\<rparr>) rs)"
proof -
  let ?f = "\<lambda>r. r\<lparr>is_pinned := False, pin_order := 0, updated_at := now\<rparr>"
  have ids: "map clip_id (update_by_id i ?f rs) = map clip_id rs"
    by (simp add: map_clip_id_update_by_id)
  have "map pin_order (filter is_pinned (update_by_id i ?f rs))
        = map pin_order (filter (\<lambda>r. is_pinned r \<and> clip_id r \<noteq> i) rs)"
    by (induction rs) (simp_all add: update_by_id_def)
  then show ?thesis
    using assms by (simp add: table_ok_def pin_order_unique_def ids distinct_map_filter_conj)
qed

lemma max_pin_order_ge:
  "r \<in> set rs \<Longrightarrow> is_pinned r \<Longrightarrow> pin_order r \<le> max_pin_order rs"
proof -
  assume r: "r \<in> set rs" "is_pinned r"
  then have m: "pin_order r \<in> set (map pin_order (filter is_pinned rs))" by simp
  show ?thesis
  proof (cases "map pin_order (filter is_pinned rs)")
    case Nil
    with m show ?thesis by simp
  next
    case (Cons a as)
    have "x \<le> fold max as a" if "x \<in> set (a # as)" for x :: int
    proof (cases "x = a")
      case True
      have "b \<le> fold max ys b" for ys and b :: int
        by (induction ys arbitrary: b) (auto intro: order_trans[OF max.cobounded2])
      with True show ?thesis by simp
    next
      case False
      with that show ?thesis by (simp add: fold_max_ge)
    qed
    with m Cons show ?thesis by (simp add: max_pin_order_def)
  qed
qed

lemma table_ok_pin:
  assumes ok: "table_ok rs" and top: "\<forall>r \<in> set rs. is_pinned r \<longrightarrow> pin_order r < m"
  shows "table_ok (update_by_id i (\<lambda>r. r\<lparr>is_pinned := True, pin_order := m, updated_at := now\<rparr>) rs)"
proof -
  let ?f = "\<lambda>r. r\<lparr>is_pinned := True, pin_order := m, updated_at := now\<rparr>"
  have ids: "map clip_id (update_by_id i ?f rs) = map clip_id rs"
    by (simp add: map_clip_id_update_by_id)
  have "distinct (map clip_id rs) \<Longrightarrow> pin_order_unique rs
        \<Longrightarrow> \<forall>r \<in> set rs. is_pinned r \<longrightarrow> pin_order r < m
        \<Longrightarrow> pin_order_unique (update_by_id i ?f rs)
            \<and> set (map pin_order (filter is_pinned (update_by_id i ?f rs)))
                \<subseteq> insert m (set (map pin_order (filter is_pinned rs)))"
  proof (induction rs)
    case Nil
    then show ?case by (simp add: update_by_id_def pin_order_unique_def)
  next
    case (Cons a rs)
    from Cons.prems have ih: "pin_order_unique (update_by_id i ?f rs)"
      "set (map pin_order (filter is_pinned (update_by_id i ?f rs)))
         \<subseteq> insert m (set (map pin_order (filter is_pinned rs)))"
      using Cons.IH by (simp_all add: pin_order_unique_def split: if_splits)
    show ?case
    proof (cases "clip_id a = i")
      case True
      with Cons.prems(1) have "\<forall>r \<in> set rs. clip_id r \<noteq> i" by (auto simp: image_iff)
      then have same: "update_by_id i ?f rs = rs" by (rule update_by_id_fresh)
      have "m \<notin> set (map pin_order (filter is_pinned rs))"
        using Cons.prems(3) by auto
      then show ?thesis
        using True Cons.prems(2) same
        by (auto simp: update_by_id_def pin_order_unique_def split: if_splits)
    next
      case False
      show ?thesis
      proof (cases "is_pinned a")
        case True
        then have "pin_order a < m" using Cons.prems(3) by simp
        moreover have "pin_order a \<notin> set (map pin_order (filter is_pinned rs))"
          using Cons.prems(2) True by (simp add: pin_order_unique_def)
        ultimately have "pin_order a \<notin> set (map pin_order (filter is_pinned (update_by_id i ?f rs)))"
          using ih(2) by auto
        then show ?thesis
          using False True ih by (auto simp: update_by_id_def pin_order_unique_def)
      next
        case np: False
        then show ?thesis
          using False ih by (auto simp: update_by_id_def pin_order_unique_def)
      qed
    qed
  qed
  then show ?thesis using ok top by (simp add: table_ok_def ids)
qed


lemma table_ok_swap:
  assumes ok: "table_ok rs" and x: "x \<in> set rs" "is_pinned x" and t: "t \<in> set rs" "is_pinned t"
  shows "table_ok (map (swap_row (clip_id x) (pin_order t) (clip_id t) (pin_order x)) rs)"
proof -
  let ?phi = "swap_row (clip_id x) (pin_order t) (clip_id t) (pin_order x)"
  let ?pi = "\<lambda>r. if r = t then x else if r = x then t else r"
  let ?P = "filter is_pinned rs"
  from ok have ids: "distinct (map clip_id rs)" and ord: "pin_order_unique rs"
    by (simp_all add: table_ok_def)
  have idk: "map clip_id (map ?phi rs) = map clip_id rs"
    by (simp add: swap_row_fields o_def)
  have pk: "filter is_pinned (map ?phi rs) = map ?phi ?P"
    by (simp add: filter_map o_def swap_row_fields)
  have via: "pin_order (?phi r) = pin_order (?pi r)" if r: "r \<in> set rs" for r
  proof (cases "clip_id r = clip_id t")
    case True
    then have "r = t" using same_id_same_row[OF ids r t(1)] by simp
    then show ?thesis by (simp add: swap_row_fields)
  next
    case nj: False
    then have nt: "r \<noteq> t" by auto
    show ?thesis
    proof (cases "clip_id r = clip_id x")
      case True
      then have "r = x" using same_id_same_row[OF ids r x(1)] by simp
      with nj nt show ?thesis by (simp add: swap_row_fields)
    next
      case False
      then have "r \<noteq> x" by auto
      with nj nt False show ?thesis by (simp add: swap_row_fields)
    qed
  qed
  have dP: "distinct ?P"
    using ord by (simp add: pin_order_unique_def distinct_map)
  have inj: "inj_on (\<lambda>r. pin_order (?phi r)) (set ?P)"
  proof (rule inj_onI)
    fix a b assume a: "a \<in> set ?P" and b: "b \<in> set ?P"
      and e: "pin_order (?phi a) = pin_order (?phi b)"
    from a b have ab: "a \<in> set rs" "b \<in> set rs" "is_pinned a" "is_pinned b" by simp_all
    from e have e': "pin_order (?pi a) = pin_order (?pi b)"
      by (simp only: via[OF ab(1)] via[OF ab(2)])
    have pa: "?pi a \<in> set rs" "is_pinned (?pi a)" using ab x t by simp_all
    have pb: "?pi b \<in> set rs" "is_pinned (?pi b)" using ab x t by simp_all
    have "?pi a = ?pi b"
      by (rule same_order_same_row[OF ord pa(1) pb(1) pa(2) pb(2) e'])
    then show "a = b" by (auto split: if_splits)
  qed
  have "distinct (map pin_order (map ?phi ?P))"
    using dP inj by (simp add: distinct_map o_def)
  then show ?thesis
    using ids by (simp add: table_ok_def pin_order_unique_def idk pk del: map_map)
qed

lemma table_ok_kept:
  assumes ok: "table_ok (rows s)"
  shows "table_ok (rows (fst (pin_clip now i s)))"
    and "table_ok (rows (fst (unpin_clip now i s)))"
    and "table_ok (rows (fst (delete_clip i s)))"
    and "table_ok (rows (fst (update_tag i tg s)))"
    and "table_ok (rows (fst (update_group i g s)))"
    and "table_ok (rows (fst (clear_history s)))"
    and "table_ok (rows (fst (clear_pinned s)))"
    and "table_ok (rows (fst (move_clip stamp i d False s)))"
    and "list_all (\<lambda>r. clip_id r = i \<longrightarrow> is_pinned r) (rows s)
         \<Longrightarrow> table_ok (rows (fst (move_clip stamp i d True s)))"
    and "case add_clip digest ctype c tg now s of Inl e \<Rightarrow> True | Inr (s', r) \<Rightarrow> table_ok (rows s')"
proof -
  have top: "\<forall>r \<in> set (rows s). is_pinned r \<longrightarrow> pin_order r < max_pin_order (rows s) + 1"
    using max_pin_order_ge[of _ "rows s"] by fastforce
  show "table_ok (rows (fst (pin_clip now i s)))"
    using table_ok_pin[OF ok top] by (simp add: pin_clip_def Let_def)
  show "table_ok (rows (fst (unpin_clip now i s)))"
    using table_ok_unpin[OF ok] by (simp add: unpin_clip_def)
  show "table_ok (rows (fst (delete_clip i s)))"
    using table_ok_delete[OF ok] by (simp add: delete_clip_def)
  show "table_ok (rows (fst (update_tag i tg s)))"
    using ok table_ok_keys[OF update_by_id_keys[of "\<lambda>r. r\<lparr>tag := tg\<rparr>" i "rows s"]]
    by (simp add: update_tag_def row_key_def)
  show "table_ok (rows (fst (update_group i g s)))"
    using ok table_ok_keys[OF update_by_id_keys[of "\<lambda>r. r\<lparr>group_name := g\<rparr>" i "rows s"]]
    by (simp add: update_group_def row_key_def)
  show "table_ok (rows (fst (clear_history s)))"
    using table_ok_delete[OF ok] by (simp add: clear_history_def)
  show "table_ok (rows (fst (clear_pinned s)))"
    using table_ok_delete[OF ok] by (simp add: clear_pinned_def)
  show "table_ok (rows (fst (move_clip stamp i d False s)))"
    using ok table_ok_keys[OF rewrite_times_keys]
    by (simp add: move_clip_def Let_def)
  show "table_ok (rows (fst (move_clip stamp i d True s)))"
    if m: "list_all (\<lambda>r. clip_id r = i \<longrightarrow> is_pinned r) (rows s)"
  proof (cases "find (\<lambda>r. clip_id r = i) (rows s)")
    case None
    then show ?thesis using ok by (simp add: move_clip_def)
  next
    case (Some x)
    from find_in_set[OF Some] have x: "x \<in> set (rows s)" "clip_id x = i" by simp_all
    with m have px: "is_pinned x" by (simp add: list_all_iff)
    show ?thesis
    proof (cases "find (\<lambda>r. is_pinned r \<and> pin_order r = pin_order x + d) (rows s)")
      case None
      with Some ok show ?thesis by (simp add: move_pinned_boundary)
    next
      case t: (Some t)
      from find_in_set[OF t] have tt: "t \<in> set (rows s)" "is_pinned t" "pin_order t = pin_order x + d"
        by simp_all
      from table_ok_swap[OF ok x(1) px tt(1,2)] show ?thesis
        by (simp add: move_pinned_rows[OF Some t] x(2) tt(3))
    qed
  qed
  show "case add_clip digest ctype c tg now s of Inl e \<Rightarrow> True | Inr (s', r) \<Rightarrow> table_ok (rows s')"
  proof (cases "find (\<lambda>r. hash r = compute_hash digest c) (rows s)")
    case None
    have "\<forall>r \<in> set (rows s). clip_id r \<noteq> next_rowid s"
      using next_rowid_fresh by fastforce
    then show ?thesis
      using None ok by (auto simp: add_clip_def Let_def table_ok_def pin_order_unique_def)
  next
    case (Some e)
    then show ?thesis
      using ok table_ok_keys[OF update_by_id_keys[of "\<lambda>r. r\<lparr>updated_at := now\<rparr>" "clip_id e" "rows s"]]
      by (simp add: add_clip_def Let_def row_key_def)
  qed
qed

subsection \<open>The checksum of a backup\<close>









subsection \<open>The two validators\<close>





subsection \<open>Rotation\<close>























subsection \<open>Debouncing\<close>

lemma fold_id: "(\<And>x s. x \<in> set xs \<Longrightarrow> P s \<Longrightarrow> f x s = s) \<Longrightarrow> P s \<Longrightarrow> fold f xs s = s"
  by (induction xs) simp_all

lemma timer_run_cancelled:
  "i < length (timers s) \<Longrightarrow> cancelled (timers s ! i) \<Longrightarrow> timer_run t i s = s"
  by (simp add: timer_run_def Let_def)

lemma advance_snoc:
  assumes "timers s = pre @ [tm]" "list_all cancelled pre"
  shows "advance t s = timer_run t (length pre) s"
proof -
  have "fold (timer_run t) [0..<length pre] s = s"
  proof (rule fold_id[where P = "\<lambda>u. u = s"])
    fix x u assume "x \<in> set [0..<length pre]" "u = s"
    then show "timer_run t x u = u"
      using assms by (intro timer_run_cancelled) (simp_all add: nth_append list_all_length)
  qed simp
  then show ?thesis
    using assms(1) by (simp add: advance_def)
qed

lemma armed_advance_early:
  assumes "armed t s" "t' < t + debounce_seconds"
  shows "advance t' s = s"
proof -
  from assms(1) obtain pre where p:
    "timers s = pre @ [\<lparr>deadline = t + debounce_seconds, cancelled = False, fired = False\<rparr>]"
    "list_all cancelled pre" by (auto simp: armed_def)
  show ?thesis
    using assms(2) by (simp add: advance_snoc[OF p] timer_run_def p(1) Let_def)
qed

lemma armed_advance_late:
  assumes "armed t s" "t + debounce_seconds \<le> T"
  shows "backup_calls (advance T s) = [t + debounce_seconds]"
proof -
  from assms(1) obtain pre where p:
    "timers s = pre @ [\<lparr>deadline = t + debounce_seconds, cancelled = False, fired = False\<rparr>]"
    "list_all cancelled pre" and c: "backup_calls s = []" by (auto simp: armed_def)
  show ?thesis
    using assms(2) c by (simp add: advance_snoc[OF p] timer_run_def p(1) Let_def execute_backup_def)
qed

lemma armed_schedule:
  assumes "armed t s"
  shows "armed t' (schedule t' s)"
proof -
  from assms obtain pre where p:
    "timers s = pre @ [\<lparr>deadline = t + debounce_seconds, cancelled = False, fired = False\<rparr>]"
    "list_all cancelled pre" "cur s = Some (length pre)" and c: "backup_calls s = []"
    by (auto simp: armed_def)
  let ?pre' = "pre @ [\<lparr>deadline = t + debounce_seconds, cancelled = True, fired = False\<rparr>]"
  have "timer_cancel (length pre) (timers s) = ?pre'"
    by (simp add: timer_cancel_def p(1))
  then have "timers (schedule t' s) = ?pre' @ [\<lparr>deadline = t' + debounce_seconds, cancelled = False, fired = False\<rparr>]"
    "cur (schedule t' s) = Some (length ?pre')" "backup_calls (schedule t' s) = []"
    using p(3) c by (simp_all add: schedule_def Let_def)
  moreover have "list_all cancelled ?pre'" using p(2) by simp
  ultimately show ?thesis unfolding armed_def by blast
qed

lemma armed_first: "armed t (schedule t (advance t init_scheduler))"
  by (simp add: armed_def schedule_def advance_def init_scheduler_def Let_def)

lemma armed_notify_all:
  "armed t s \<Longrightarrow> spaced (t # ts) \<Longrightarrow> armed (last (t # ts)) (notify_all ts s)"
proof (induction ts arbitrary: t s)
  case Nil
  then show ?case by simp
next
  case (Cons u ts)
  from Cons.prems(2) have u: "u < t + debounce_seconds" "spaced (u # ts)" by simp_all
  have "advance u s = s" by (rule armed_advance_early[OF Cons.prems(1) u(1)])
  moreover have "armed u (schedule u s)" by (rule armed_schedule[OF Cons.prems(1)])
  ultimately show ?case using Cons.IH[OF _ u(2)] by simp
qed

text \<open>
  Claim C9. Let \<open>N \<ge> 1\<close> calls of \<^verbatim>\<open>schedule()\<close> be made on a fresh scheduler at
  times in order, each less than the debounce interval of 30 seconds after the one
  before. Up to any time before the last call plus the interval the backup function has
  not been invoked; from the last call plus the interval on it has been invoked exactly
  once, at that time.
\<close>

theorem debounce_coalesces:
  assumes "ts \<noteq> []" and "spaced ts"
  shows "(last ts + debounce_seconds \<le> T \<longrightarrow>
            backup_calls (advance T (notify_all ts init_scheduler)) = [last ts + debounce_seconds])
       \<and> (T < last ts + debounce_seconds \<longrightarrow>
            backup_calls (advance T (notify_all ts init_scheduler)) = [])"
proof -
  from assms(1) obtain t rest where ts: "ts = t # rest" by (cases ts) auto
  have "armed (last ts) (notify_all ts init_scheduler)"
    using armed_notify_all[OF armed_first, of t rest] assms(2) by (simp add: ts)
  then show ?thesis
    using armed_advance_late[of "last ts" _ T] armed_advance_early[of "last ts" _ T]
    by (auto simp: armed_def)
qed

theorem debounce_coalesces_witness:
  "[0, 10, 25 :: real] \<noteq> [] \<and> spaced [0, 10, 25]
   \<and> backup_calls (advance 60 (notify_all [0, 10, 25] init_scheduler)) = [55]
   \<and> backup_calls (advance 54 (notify_all [0, 10, 25] init_scheduler)) = []"
proof -
  have h: "[0, 10, 25 :: real] \<noteq> []" "spaced [0, 10, 25]"
    by (simp_all add: debounce_seconds_def)
  from debounce_coalesces[OF h, of 60] debounce_coalesces[OF h, of 54] h
  show ?thesis by (simp add: debounce_seconds_def)
qed

end
